theory Spec2Isabelle
  imports Main "HOL-Library.Multiset"
begin

section \<open>Python values used by both programs\<close>

text \<open>
  Both programs are Python 3 scripts. A Python \<open>str\<close> is a sequence of code points; the
  model takes \<^typ>\<open>string\<close> for it and reads a \<^typ>\<open>char\<close> as the code point
  U+0000 .. U+00FF with the same number, so \<open>length\<close> counts what \<open>len\<close> counts. The
  string methods below are defined on all 256 of these code points as CPython defines them.
  Python's \<open>int\<close> is unbounded and becomes \<^typ>\<open>int\<close>.
\<close>

datatype exn = ValueError | IndexError | EOFError

definition isdecimal_char :: "char \<Rightarrow> bool" where
  \<comment> \<open>the ASCII digits \<open>0\<close> .. \<open>9\<close>: the only decimal digits (category Nd) below U+0100\<close>
  "isdecimal_char c = (let n = (of_char c :: nat) in 48 \<le> n \<and> n \<le> 57)"

definition isdigit_char :: "char \<Rightarrow> bool" where
  \<comment> \<open>\<open>str.isdigit\<close> also holds of the superscripts U+00B2, U+00B3 and U+00B9\<close>
  "isdigit_char c =
     (let n = (of_char c :: nat) in (48 \<le> n \<and> n \<le> 57) \<or> n = 178 \<or> n = 179 \<or> n = 185)"

definition isdigit :: "string \<Rightarrow> bool" where
  \<comment> \<open>\<open>s.isdigit()\<close>: at least one character, and all of them digits\<close>
  "isdigit s = (s \<noteq> [] \<and> list_all isdigit_char s)"

definition digit_value :: "char \<Rightarrow> int" where
  "digit_value c = int (of_char c) - 48"

definition py_int :: "string \<Rightarrow> exn + int" where
  \<comment> \<open>\<open>int(s)\<close> on the strings the programs pass to it, which have all passed
      \<open>s.isdigit()\<close>: the base 10 value when every character is a decimal digit, and
      \<open>ValueError\<close> otherwise (a superscript digit is no literal). The interpreter's
      limit on the number of digits it converts is not modelled.\<close>
  "py_int s =
     (if s \<noteq> [] \<and> list_all isdecimal_char s
      then Inr (foldl (\<lambda>a c. 10 * a + digit_value c) 0 s)
      else Inl ValueError)"

definition lower_char :: "char \<Rightarrow> char" where
  \<comment> \<open>\<open>A\<close> .. \<open>Z\<close> and U+00C0 .. U+00DE without the multiplication sign U+00D7\<close>
  "lower_char c =
     (let n = (of_char c :: nat)
      in if (65 \<le> n \<and> n \<le> 90) \<or> (192 \<le> n \<and> n \<le> 222 \<and> n \<noteq> 215)
         then char_of (n + 32) else c)"

definition lower :: "string \<Rightarrow> string" where
  "lower s = map lower_char s"




section \<open>The random source\<close>

text \<open>
  The module \<open>random\<close> is a generator with hidden state. The model passes the state
  explicitly as the stream of its raw draws, so every theorem below that holds for all
  streams holds whatever the generator produces. \<open>randbelow n\<close> is the primitive the
  module builds on: a value below \<open>n\<close>. How likely each value is, is not modelled.
\<close>

type_synonym rng = "nat \<Rightarrow> nat"

definition randbelow :: "nat \<Rightarrow> rng \<Rightarrow> nat \<times> rng" where
  "randbelow n g = (g 0 mod n, \<lambda>i. g (Suc i))"

definition choice :: "'a list \<Rightarrow> rng \<Rightarrow> exn + ('a \<times> rng)" where
  \<comment> \<open>\<open>random.choice(seq)\<close>: \<open>IndexError\<close> on an empty sequence\<close>
  "choice seq g =
     (if seq = [] then Inl IndexError
      else (case randbelow (length seq) g of (i, g') \<Rightarrow> Inr (seq ! i, g')))"

fun choices :: "'a list \<Rightarrow> nat \<Rightarrow> rng \<Rightarrow> exn + ('a list \<times> rng)" where
  \<comment> \<open>\<open>random.choices(population, k=k)\<close>: \<open>k\<close> independent draws with replacement\<close>
  "choices population 0 g = Inr ([], g)"
| "choices population (Suc k) g =
     (if population = [] then Inl IndexError
      else (case randbelow (length population) g of
              (i, g') \<Rightarrow>
                (case choices population k g' of
                   Inl e \<Rightarrow> Inl e
                 | Inr (rest, g'') \<Rightarrow> Inr (population ! i # rest, g''))))"

fun shuffle_loop :: "nat \<Rightarrow> 'a list \<Rightarrow> rng \<Rightarrow> 'a list \<times> rng" where
  \<comment> \<open>\<open>for i in reversed(range(1, len(x))): j = randbelow(i + 1); x[i], x[j] = x[j], x[i]\<close>\<close>
  "shuffle_loop 0 x g = (x, g)"
| "shuffle_loop (Suc i) x g =
     (case randbelow (Suc i + 1) g of
        (j, g') \<Rightarrow> shuffle_loop i (x[Suc i := x ! j, j := x ! Suc i]) g')"

definition shuffle :: "'a list \<Rightarrow> rng \<Rightarrow> 'a list \<times> rng" where
  \<comment> \<open>\<open>random.shuffle(x)\<close>, returning the list it leaves in \<open>x\<close>\<close>
  "shuffle x g = shuffle_loop (length x - 1) x g"


section \<open>passwordGenerator/main.py\<close>

subsection \<open>Constants\<close>

definition NUMBERS :: string where
  "NUMBERS = ''0123456789''"



definition LOWERCASE_LETTERS :: string where
  "LOWERCASE_LETTERS = ''abcdefghijklmnopqrstuvwxyz''"

definition MIN_PASSWORD_LENGTH :: int where
  "MIN_PASSWORD_LENGTH = 8"

definition MAX_PASSWORD_LENGTH :: int where
  "MAX_PASSWORD_LENGTH = 128"







subsection \<open>The form\<close>







subsection \<open>Composing the password\<close>

fun required_chars :: "string list \<Rightarrow> rng \<Rightarrow> exn + (string \<times> rng)" where
  \<comment> \<open>\<open>[random.choice(charset) for charset in selected_sets]\<close>\<close>
  "required_chars [] g = Inr ([], g)"
| "required_chars (charset # rest) g =
     (case choice charset g of
        Inl e \<Rightarrow> Inl e
      | Inr (c, g') \<Rightarrow>
          (case required_chars rest g' of
             Inl e \<Rightarrow> Inl e
           | Inr (cs, g'') \<Rightarrow> Inr (c # cs, g'')))"

definition generate_password_with_charsets :: "string list \<Rightarrow> int \<Rightarrow> rng \<Rightarrow> exn + string" where
  \<comment> \<open>a count \<open>k\<close> below 0 makes \<open>random.choices\<close> return the empty list, as \<open>nat\<close> does\<close>
  "generate_password_with_charsets selected_sets len g =
     (case required_chars selected_sets g of
        Inl e \<Rightarrow> Inl e
      | Inr (required, g1) \<Rightarrow>
          (let all_chars = concat selected_sets
           in case choices all_chars (nat (len - int (length required))) g1 of
                Inl e \<Rightarrow> Inl e
              | Inr (remaining_chars, g2) \<Rightarrow>
                  (let password = required @ remaining_chars
                   in Inr (fst (shuffle password g2)))))"

subsection \<open>The button's callback\<close>



subsection \<open>Properties of the composer\<close>

lemma randbelow_less: "0 < n \<Longrightarrow> fst (randbelow n g) < n"
  by (simp add: randbelow_def)

lemma choice_member:
  "seq \<noteq> [] \<Longrightarrow> \<exists>c g'. choice seq g = Inr (c, g') \<and> c \<in> set seq"
  by (simp add: choice_def randbelow_def)

lemma required_chars_shape:
  "\<forall>cs \<in> set sets. cs \<noteq> [] \<Longrightarrow>
   \<exists>rs g'. required_chars sets g = Inr (rs, g') \<and> list_all2 (\<lambda>c cs. c \<in> set cs) rs sets"
proof (induction sets arbitrary: g)
  case Nil
  then show ?case by simp
next
  case (Cons cs sets)
  from Cons.prems have "cs \<noteq> []" by simp
  then obtain c g1 where c: "choice cs g = Inr (c, g1)" "c \<in> set cs"
    using choice_member by blast
  from Cons.prems have "\<forall>cs \<in> set sets. cs \<noteq> []" by simp
  then obtain rs g2 where rs: "required_chars sets g1 = Inr (rs, g2)"
      "list_all2 (\<lambda>c cs. c \<in> set cs) rs sets"
    using Cons.IH by blast
  from c rs show ?case by simp
qed

lemma choices_shape:
  "population \<noteq> [] \<or> k = 0 \<Longrightarrow>
   \<exists>xs g'. choices population k g = Inr (xs, g') \<and> length xs = k \<and> set xs \<subseteq> set population"
proof (induction k arbitrary: g)
  case 0
  then show ?case by simp
next
  case (Suc k)
  then have ne: "population \<noteq> []" by simp
  obtain i g1 where r: "randbelow (length population) g = (i, g1)"
    by (cases "randbelow (length population) g")
  have "i < length population"
    using randbelow_less [of "length population" g] ne r by simp
  moreover obtain xs g2 where "choices population k g1 = Inr (xs, g2)" "length xs = k"
      "set xs \<subseteq> set population"
    using Suc.IH [of g1] ne by blast
  ultimately show ?case using ne r by simp
qed

lemma mset_shuffle_loop:
  "i < length x \<or> i = 0 \<Longrightarrow> mset (fst (shuffle_loop i x g)) = mset x"
proof (induction i arbitrary: x g)
  case 0
  then show ?case by simp
next
  case (Suc i)
  then have i: "Suc i < length x" by simp
  obtain j g1 where r: "randbelow (Suc i + 1) g = (j, g1)"
    by (cases "randbelow (Suc i + 1) g")
  have j: "j < length x"
    using randbelow_less [of "Suc i + 1" g] r i by simp
  let ?y = "x[Suc i := x ! j, j := x ! Suc i]"
  have "mset ?y = mset x" using i j by (simp add: mset_swap)
  moreover have "mset (fst (shuffle_loop i ?y g1)) = mset ?y"
    using Suc.IH [of ?y g1] i by simp
  ultimately show ?case using r by simp
qed

lemma mset_shuffle: "mset (fst (shuffle x g)) = mset x"
  unfolding shuffle_def by (rule mset_shuffle_loop) (cases x; simp)

lemma generate_password_with_charsets_shape:
  assumes ne: "\<forall>cs \<in> set selected_sets. cs \<noteq> []"
    and sel: "selected_sets \<noteq> []"
  shows "\<exists>pw required remaining_chars.
           generate_password_with_charsets selected_sets len g = Inr pw \<and>
           mset pw = mset (required @ remaining_chars) \<and>
           list_all2 (\<lambda>c cs. c \<in> set cs) required selected_sets \<and>
           length remaining_chars = nat (len - int (length selected_sets)) \<and>
           set remaining_chars \<subseteq> set (concat selected_sets)"
proof -
  obtain rs g1 where rs: "required_chars selected_sets g = Inr (rs, g1)"
      "list_all2 (\<lambda>c cs. c \<in> set cs) rs selected_sets"
    using required_chars_shape [OF ne] by blast
  then have len_rs: "length rs = length selected_sets"
    by (simp add: list_all2_lengthD)
  have "concat selected_sets \<noteq> []" using ne sel by (cases selected_sets) auto
  then obtain xs g2 where xs:
      "choices (concat selected_sets) (nat (len - int (length rs))) g1 = Inr (xs, g2)"
      "length xs = nat (len - int (length rs))" "set xs \<subseteq> set (concat selected_sets)"
    using choices_shape [of "concat selected_sets"] by blast
  have "generate_password_with_charsets selected_sets len g = Inr (fst (shuffle (rs @ xs) g2))"
    using rs(1) xs(1) by (simp add: generate_password_with_charsets_def)
  moreover have "mset (fst (shuffle (rs @ xs) g2)) = mset (rs @ xs)"
    by (rule mset_shuffle)
  ultimately show ?thesis using rs(2) xs(2,3) len_rs by metis
qed

text \<open>
  Claim C1. For every non-empty list of selected alphabets and every length with
  \<open>max(8, number of selected classes) \<le> length \<le> 128\<close>, whatever the random source
  draws, \<open>generate_password_with_charsets\<close> returns a string of exactly \<open>length\<close>
  characters that holds at least one character of each selected alphabet. The four
  alphabets of the program are non-empty; that is all the theorem asks of an alphabet.
\<close>

theorem compose_length_and_classes:
  assumes "selected_sets \<noteq> []"
    and "\<forall>cs \<in> set selected_sets. cs \<noteq> []"
    and "max MIN_PASSWORD_LENGTH (int (length selected_sets)) \<le> len"
    and "len \<le> MAX_PASSWORD_LENGTH"
  shows "\<exists>pw. generate_password_with_charsets selected_sets len g = Inr pw \<and>
              int (length pw) = len \<and>
              (\<forall>cs \<in> set selected_sets. \<exists>c \<in> set pw. c \<in> set cs)"
proof -
  obtain pw rs xs where pw:
      "generate_password_with_charsets selected_sets len g = Inr pw"
      "mset pw = mset (rs @ xs)"
      "list_all2 (\<lambda>c cs. c \<in> set cs) rs selected_sets"
      "length xs = nat (len - int (length selected_sets))"
    using generate_password_with_charsets_shape [OF assms(2) assms(1)] by blast
  have "length pw = length (rs @ xs)" using pw(2) by (metis size_mset)
  moreover have "length rs = length selected_sets" using pw(3) by (simp add: list_all2_lengthD)
  ultimately have l: "int (length pw) = len" using pw(4) assms(3) by simp
  have "\<exists>c \<in> set pw. c \<in> set cs" if "cs \<in> set selected_sets" for cs
  proof -
    from that obtain i where i: "i < length selected_sets" "selected_sets ! i = cs"
      by (auto simp: in_set_conv_nth)
    then have "rs ! i \<in> set cs" "i < length rs"
      using pw(3) by (auto simp: list_all2_conv_all_nth)
    then have "rs ! i \<in> set (rs @ xs)" by simp
    then have "rs ! i \<in> set pw" using pw(2) by (metis set_mset_mset)
    with \<open>rs ! i \<in> set cs\<close> show ?thesis by blast
  qed
  with pw(1) l show ?thesis by blast
qed

theorem compose_length_and_classes_witness:
  "\<exists>pw. generate_password_with_charsets [NUMBERS, LOWERCASE_LETTERS] 8 (\<lambda>i. 7 * i + 3) = Inr pw \<and>
        int (length pw) = 8 \<and>
        (\<exists>c \<in> set pw. c \<in> set NUMBERS) \<and> (\<exists>c \<in> set pw. c \<in> set LOWERCASE_LETTERS)"
  using compose_length_and_classes [of "[NUMBERS, LOWERCASE_LETTERS]" 8 "\<lambda>i. 7 * i + 3"]
  by (simp add: NUMBERS_def LOWERCASE_LETTERS_def MIN_PASSWORD_LENGTH_def MAX_PASSWORD_LENGTH_def)

text \<open>
  Claim C6. For every valid input (a non-empty list of selected alphabets, a length within
  the bounds), every character of the returned string belongs to the union of the selected
  alphabets.
\<close>

theorem compose_only_selected_alphabets:
  assumes "selected_sets \<noteq> []"
    and "\<forall>cs \<in> set selected_sets. cs \<noteq> []"
    and "max MIN_PASSWORD_LENGTH (int (length selected_sets)) \<le> len"
    and "len \<le> MAX_PASSWORD_LENGTH"
  shows "\<exists>pw. generate_password_with_charsets selected_sets len g = Inr pw \<and>
              set pw \<subseteq> (\<Union>cs \<in> set selected_sets. set cs)"
proof -
  obtain pw rs xs where pw:
      "generate_password_with_charsets selected_sets len g = Inr pw"
      "mset pw = mset (rs @ xs)"
      "list_all2 (\<lambda>c cs. c \<in> set cs) rs selected_sets"
      "set xs \<subseteq> set (concat selected_sets)"
    using generate_password_with_charsets_shape [OF assms(2) assms(1)] by blast
  have "c \<in> (\<Union>cs \<in> set selected_sets. set cs)" if "c \<in> set rs" for c
  proof -
    from that obtain i where i: "i < length rs" "rs ! i = c"
      by (auto simp: in_set_conv_nth)
    then have "c \<in> set (selected_sets ! i)" "i < length selected_sets"
      using pw(3) by (auto simp: list_all2_conv_all_nth)
    then show ?thesis using nth_mem by blast
  qed
  then have "set rs \<subseteq> (\<Union>cs \<in> set selected_sets. set cs)" by blast
  moreover have "set xs \<subseteq> (\<Union>cs \<in> set selected_sets. set cs)"
    using pw(4) by auto
  moreover have "set pw = set (rs @ xs)" using pw(2) by (metis set_mset_mset)
  ultimately show ?thesis using pw(1) by auto
qed

theorem compose_only_selected_alphabets_witness:
  "\<exists>pw. generate_password_with_charsets [NUMBERS] 8 (\<lambda>i. 7 * i + 3) = Inr pw \<and>
        set pw \<subseteq> set NUMBERS"
  using compose_only_selected_alphabets [of "[NUMBERS]" 8 "\<lambda>i. 7 * i + 3"]
  by (simp add: NUMBERS_def MIN_PASSWORD_LENGTH_def MAX_PASSWORD_LENGTH_def)


subsection \<open>Properties of the callback\<close>


lemma isdecimal_isdigit_char: "isdecimal_char c \<Longrightarrow> isdigit_char c"
  by (simp add: isdecimal_char_def isdigit_char_def Let_def)

lemma py_int_isdigit: "py_int s = Inr n \<Longrightarrow> isdigit s"
  by (auto simp: py_int_def isdigit_def list_all_iff isdecimal_isdigit_char split: if_splits)

















section \<open>triviaGame/main.py\<close>

subsection \<open>Questions, the console and what a run leaves behind\<close>

text \<open>
  \<open>load_questions\<close> reads \<open>questions.json\<close>; the model takes the loaded list as the
  parameter \<open>questions\<close>. An entry of the list is a dictionary with the four keys the
  program reads, here a record. Entries that lack a key or hold a value of another type
  are outside the model, as they are outside the specification.

  The program talks to a console. A \<open>world\<close> holds the lines still to be read from
  standard input and the \<open>trace\<close> of what the program has done so far: one event for
  every \<open>print\<close>, every \<open>input\<close> prompt and every \<open>time.sleep(1)\<close>, named after
  the text printed, in the order of execution. \<open>AssignLives\<close> is the one event that
  prints nothing: it records the value that \<open>lives -= 1\<close> on line 71 assigns.
  \<open>input\<close> on an exhausted standard input raises \<open>EOFError\<close> after showing its
  prompt. Every function that prints or reads takes the world and returns the new one;
  one that can raise returns \<open>Inl\<close> of the exception together with the world reached.
  An exception is caught nowhere in the program, so \<open>Raised\<close> is how the run ends.
\<close>

definition LIVES :: int where "LIVES = 3"

record quiz_item =
  question :: string
  options :: "string list"
  answer :: string
  difficulty :: string

datatype verdict = PyTrue | PyFalse | InvalidInput

datatype event =
    PrintQuestion int string "string list"
  | InputAnswer
  | PrintEnterValid
  | PrintCorrect
  | PrintWrong string
  | Sleep
  | AssignLives int
  | PrintLivesLeft int
  | InputLost
  | PrintInvalidInput
  | InputAgain
  | PrintThanks

record world =
  stdin :: "string list"
  trace :: "event list"

definition emit :: "event list \<Rightarrow> world \<Rightarrow> world" where
  "emit es w = w\<lparr>trace := trace w @ es\<rparr>"

definition py_input :: "event \<Rightarrow> world \<Rightarrow> (exn + string) \<times> world" where
  "py_input prompt w =
     (case stdin w of
        [] \<Rightarrow> (Inl EOFError, emit [prompt] w)
      | line # rest \<Rightarrow> (Inr line, emit [prompt] (w\<lparr>stdin := rest\<rparr>)))"

subsection \<open>The functions of the script\<close>

definition categorize_questions ::
  "quiz_item list \<Rightarrow> quiz_item list \<times> quiz_item list \<times> quiz_item list" where
  "categorize_questions questions =
     (let easy_questions = filter (\<lambda>q. lower (difficulty q) = ''easy'') questions;
          medium_questions = filter (\<lambda>q. lower (difficulty q) = ''medium'') questions;
          hard_questions = filter (\<lambda>q. lower (difficulty q) = ''hard'') questions
      in (easy_questions, medium_questions, hard_questions))"

definition total_questions :: "quiz_item list \<Rightarrow> quiz_item list" where
  "total_questions questions =
     (case categorize_questions questions of (easy, medium, hard) \<Rightarrow> easy @ medium @ hard)"

text \<open>
  \<open>check_answer\<close> returns \<open>True\<close>, \<open>False\<close> or the string \<open>"invalid input"\<close>:
  the three values of \<open>verdict\<close>. Its \<open>while\<close> returns in its first iteration, so it
  is a conditional. \<open>not is_correct\<close> holds of \<open>False\<close> only (a non-empty string is
  true), and \<open>is_correct == "invalid input"\<close> of the string only. The parameter
  \<open>options\<close> is written \<open>opts\<close>, the name being taken by the field of the record.
\<close>

definition check_answer :: "string \<Rightarrow> string \<Rightarrow> string list \<Rightarrow> world \<Rightarrow> (exn + verdict) \<times> world" where
  "check_answer user_answer correct_answer opts w =
     (if \<not> isdigit user_answer then (Inr InvalidInput, emit [PrintEnterValid, Sleep] w)
      else
        (case py_int user_answer of
           Inl e \<Rightarrow> (Inl e, w)
         | Inr n \<Rightarrow>
             if n > int (length opts) \<or> n < 1
             then (Inr InvalidInput, emit [PrintEnterValid, Sleep] w)
             else
               (let user_answer_text = opts ! nat (n - 1)
                in if lower user_answer_text = lower correct_answer
                   then (Inr PyTrue, emit [PrintCorrect, Sleep] w)
                   else (Inr PyFalse, emit [PrintWrong correct_answer, Sleep] w))))"

definition print_question :: "int \<Rightarrow> string \<Rightarrow> string list \<Rightarrow> world \<Rightarrow> world" where
  "print_question idx current_question current_options w =
     emit [PrintQuestion idx current_question current_options] w"

definition take_answer :: "world \<Rightarrow> (exn + string) \<times> world" where
  "take_answer w =
     (case py_input InputAnswer w of
        (Inl e, w') \<Rightarrow> (Inl e, w')
      | (Inr line, w') \<Rightarrow> (Inr (lower line), w'))"

text \<open>
  Lines 66 to 68 (print the question, take an answer, check it) stand a second time in
  the loop of lines 90 to 92; \<open>ask\<close> is these three lines, with the lowercased question
  and answer of lines 62 to 64.
\<close>

definition ask :: "int \<Rightarrow> quiz_item \<Rightarrow> world \<Rightarrow> (exn + verdict) \<times> world" where
  "ask question_number q w =
     (let current_question = lower (question q);
          current_answer = lower (answer q);
          current_options = options q
      in case take_answer (print_question question_number current_question current_options w) of
           (Inl e, w') \<Rightarrow> (Inl e, w')
         | (Inr user_answer, w') \<Rightarrow> check_answer user_answer current_answer current_options w')"

lemma stdin_emit [simp]: "stdin (emit es w) = stdin w"
  by (simp add: emit_def)

lemma ask_consumes:
  "ask n q w = (Inr v, w') \<Longrightarrow> length (stdin w') < length (stdin w)"
  by (auto simp: ask_def take_answer_def py_input_def print_question_def check_answer_def Let_def
      split: list.splits sum.splits if_splits)

lemma ask_stdin_le:
  "ask n q w = (r, w') \<Longrightarrow> length (stdin w') \<le> length (stdin w)"
  by (auto simp: ask_def take_answer_def py_input_def print_question_def check_answer_def Let_def
      split: list.splits sum.splits if_splits)

text \<open>
  \<open>retry\<close> is the loop \<open>while is_correct == "invalid input"\<close> of lines 89 to 93. It
  returns the verdict that ended it; the caller then runs the \<open>else\<close> of the loop,
  \<open>question_number += 1\<close>. Each iteration reads a line, which is why it terminates on
  every finite input.
\<close>

function retry :: "int \<Rightarrow> quiz_item \<Rightarrow> verdict \<Rightarrow> world \<Rightarrow> (exn + verdict) \<times> world" where
  "retry question_number q is_correct w =
     (if is_correct = InvalidInput
      then (case ask question_number q w of
              (Inl e, w') \<Rightarrow> (Inl e, w')
            | (Inr is_correct', w') \<Rightarrow> retry question_number q is_correct' w')
      else (Inr is_correct, w))"
  by pat_completeness auto
termination
  by (relation "measure (\<lambda>(n, q, v, w). length (stdin w))") (auto dest: ask_consumes [OF sym])

declare retry.simps [simp del]

text \<open>
  \<open>ask_again\<close> is lines 74 to 78: the prompt after the last life is lost, and the loop
  \<open>again_loop\<close> that repeats a shorter prompt until the lowercased line is \<open>y\<close> or
  \<open>n\<close>.
\<close>

function again_loop :: "string \<Rightarrow> world \<Rightarrow> (exn + string) \<times> world" where
  "again_loop again w =
     (if again \<noteq> ''y'' \<and> again \<noteq> ''n''
      then (case py_input InputAgain (emit [PrintInvalidInput, Sleep] w) of
              (Inl e, w') \<Rightarrow> (Inl e, w')
            | (Inr line, w') \<Rightarrow> again_loop (lower line) w')
      else (Inr again, w))"
  by pat_completeness auto
termination
  by (relation "measure (\<lambda>(a, w). length (stdin w))")
     (auto simp: py_input_def split: list.splits)

declare again_loop.simps [simp del]

definition ask_again :: "world \<Rightarrow> (exn + string) \<times> world" where
  "ask_again w =
     (case py_input InputLost w of
        (Inl e, w') \<Rightarrow> (Inl e, w')
      | (Inr line, w') \<Rightarrow> again_loop (lower line) w')"

lemma retry_invalid:
  "retry n q InvalidInput w =
     (case ask n q w of (Inl e, w') \<Rightarrow> (Inl e, w') | (Inr v, w') \<Rightarrow> retry n q v w')"
  by (subst retry.simps) simp

lemma retry_valid: "v \<noteq> InvalidInput \<Longrightarrow> retry n q v w = (Inr v, w)"
  by (subst retry.simps) simp

lemma again_loop_other:
  "again \<noteq> ''y'' \<Longrightarrow> again \<noteq> ''n'' \<Longrightarrow>
   again_loop again w =
     (case py_input InputAgain (emit [PrintInvalidInput, Sleep] w) of
        (Inl e, w') \<Rightarrow> (Inl e, w')
      | (Inr line, w') \<Rightarrow> again_loop (lower line) w')"
  by (subst again_loop.simps) simp

lemma again_loop_yn:
  "again = ''y'' \<or> again = ''n'' \<Longrightarrow> again_loop again w = (Inr again, w)"
  by (subst again_loop.simps) auto

lemma retry_stdin_le:
  "retry n q v w = (r, w') \<Longrightarrow> length (stdin w') \<le> length (stdin w)"
proof (induction n q v w rule: retry.induct)
  case (1 n q v w)
  show ?case
  proof (cases "v = InvalidInput")
    case False
    with "1.prems" show ?thesis by (simp add: retry_valid)
  next
    case True
    obtain r1 w1 where a: "ask n q w = (r1, w1)" by (cases "ask n q w")
    show ?thesis
    proof (cases r1)
      case (Inl e)
      with True a "1.prems" ask_stdin_le [OF a] show ?thesis
        by (simp add: retry_invalid)
    next
      case (Inr v1)
      with True a "1.prems" have "retry n q v1 w1 = (r, w')"
        by (simp add: retry_invalid)
      then have "length (stdin w') \<le> length (stdin w1)"
        using "1.IH" [OF True a [symmetric, unfolded Inr]] by blast
      with ask_stdin_le [OF a] show ?thesis by simp
    qed
  qed
qed

lemma again_loop_stdin_le:
  "again_loop a w = (r, w') \<Longrightarrow> length (stdin w') \<le> length (stdin w)"
proof (induction a w rule: again_loop.induct)
  case (1 a w)
  show ?case
  proof (cases "a \<noteq> ''y'' \<and> a \<noteq> ''n''")
    case False
    with "1.prems" show ?thesis by (auto simp: again_loop_yn)
  next
    case True
    show ?thesis
    proof (cases "stdin w")
      case Nil
      with True "1.prems" show ?thesis by (auto simp: py_input_def again_loop_other)
    next
      case (Cons l rest)
      let ?w1 = "emit [InputAgain] (emit [PrintInvalidInput, Sleep] w\<lparr>stdin := rest\<rparr>)"
      have p: "py_input InputAgain (emit [PrintInvalidInput, Sleep] w) = (Inr l, ?w1)"
        using Cons by (simp add: py_input_def)
      with True "1.prems" have "again_loop (lower l) ?w1 = (r, w')"
        by (simp add: again_loop_other)
      then have "length (stdin w') \<le> length (stdin ?w1)"
        using "1.IH" [OF True p [symmetric]] by blast
      with Cons show ?thesis by simp
    qed
  qed
qed

lemma ask_again_stdin_le:
  "ask_again w = (r, w') \<Longrightarrow> length (stdin w') \<le> length (stdin w)"
  by (auto simp: ask_again_def py_input_def split: list.splits dest: again_loop_stdin_le)

text \<open>
  \<open>for_loop\<close> is the loop of \<open>game\<close> over the questions still to come, with the
  local variables \<open>lives\<close> and \<open>question_number\<close>. Its first argument is the loaded
  list, which the call \<open>game()\<close> on line 80 categorises again. That call is the loop
  over all the questions with \<open>LIVES\<close> lives and the number 1, in the world reached;
  when it returns, control falls out of the \<open>if\<close>, skips the \<open>while\<close> (the verdict
  is \<open>False\<close>), runs its \<open>else\<close> and goes to the next question with the lives the
  outer call has. \<open>break\<close> ends the loop and with it the function. The depth of the
  interpreter's call stack, which bounds the number of nested restarts, is not modelled.

  The recursion is nested: the world in which the outer loop goes on is the one the inner
  game returns. Every call reads at least one line before it calls the loop again, and no
  call gives lines back, so the number of lines left decreases.
\<close>

datatype status = Returned | Raised exn

function for_loop ::
  "quiz_item list \<Rightarrow> quiz_item list \<Rightarrow> int \<Rightarrow> int \<Rightarrow> world \<Rightarrow> status \<times> world" where
  "for_loop questions [] lives question_number w = (Returned, w)"
| "for_loop questions (q # rest) lives question_number w =
     (case ask question_number q w of
        (Inl e, w1) \<Rightarrow> (Raised e, w1)
      | (Inr is_correct, w1) \<Rightarrow>
          if is_correct = PyFalse
          then
            (let lives' = lives - 1;
                 question_number' = question_number + 1;
                 w2 = emit [AssignLives lives'] w1
             in if lives' = 0
                then
                  (case ask_again w2 of
                     (Inl e, w3) \<Rightarrow> (Raised e, w3)
                   | (Inr again, w3) \<Rightarrow>
                       if again = ''y''
                       then
                         (case for_loop questions (total_questions questions) LIVES 1 w3 of
                            (Raised e, w4) \<Rightarrow> (Raised e, w4)
                          | (Returned, w4) \<Rightarrow>
                              for_loop questions rest lives' (question_number' + 1) w4)
                       else (Returned, emit [PrintThanks] w3))
                else for_loop questions rest lives' question_number' (emit [PrintLivesLeft lives'] w2))
          else
            (case retry question_number q is_correct w1 of
               (Inl e, w2) \<Rightarrow> (Raised e, w2)
             | (Inr is_correct', w2) \<Rightarrow> for_loop questions rest lives (question_number + 1) w2))"
  by pat_completeness auto

lemma for_loop_stdin_le_dom:
  assumes "for_loop_dom (questions, qs, lives, n, w)"
  shows "length (stdin (snd (for_loop questions qs lives n w))) \<le> length (stdin w)"
  using assms
proof (induct rule: for_loop.pinduct)
  case (1 questions lives n w)
  then show ?case by (simp add: for_loop.psimps)
next
  case (2 questions q rest lives n w)
  note eq = for_loop.psimps(2) [OF "2.hyps"(1)]
  obtain r1 w1 where a: "ask n q w = (r1, w1)" by (cases "ask n q w")
  have le1: "length (stdin w1) \<le> length (stdin w)" using ask_stdin_le [OF a] .
  show ?case
  proof (cases r1)
    case (Inl e)
    then show ?thesis using a le1 unfolding eq by simp
  next
    case r1: (Inr v)
    show ?thesis
    proof (cases "v = PyFalse")
      case wrong: True
      let ?w2 = "emit [AssignLives (lives - 1)] w1"
      show ?thesis
      proof (cases "lives - 1 = 0")
        case zero: True
        obtain r3 w3 where b: "ask_again ?w2 = (r3, w3)" by (cases "ask_again ?w2")
        have le3: "length (stdin w3) \<le> length (stdin w1)"
          using ask_again_stdin_le [OF b] by simp
        show ?thesis
        proof (cases r3)
          case (Inl e)
          then show ?thesis using a r1 wrong zero b le1 le3 unfolding eq by (simp add: Let_def)
        next
          case r3: (Inr again)
          show ?thesis
          proof (cases "again = ''y''")
            case yes: True
            obtain st w4 where
              c: "for_loop questions (total_questions questions) LIVES 1 w3 = (st, w4)"
              by (cases "for_loop questions (total_questions questions) LIVES 1 w3")
            have le4: "length (stdin w4) \<le> length (stdin w3)"
              using "2.hyps"(2) [OF a [symmetric] r1 wrong refl refl refl zero b [symmetric] r3 yes] c
              by simp
            show ?thesis
            proof (cases st)
              case Returned
              have "length (stdin (snd (for_loop questions rest (lives - 1) (n + 1 + 1) w4)))
                      \<le> length (stdin w4)"
                using "2.hyps"(3) [OF a [symmetric] r1 wrong refl refl refl zero b [symmetric] r3 yes
                    c [symmetric] Returned] .
              then show ?thesis
                using a r1 wrong zero b r3 yes c Returned le1 le3 le4 unfolding eq by (simp add: Let_def)
            next
              case (Raised e)
              then show ?thesis
                using a r1 wrong zero b r3 yes c le1 le3 le4 unfolding eq by (simp add: Let_def)
            qed
          next
            case False
            then show ?thesis using a r1 wrong zero b r3 le1 le3 unfolding eq by (simp add: Let_def)
          qed
        qed
      next
        case nz: False
        have "length (stdin (snd (for_loop questions rest (lives - 1) (n + 1)
                  (emit [PrintLivesLeft (lives - 1)] ?w2)))) \<le> length (stdin w1)"
          using "2.hyps"(4) [OF a [symmetric] r1 wrong refl refl refl nz] by simp
        then show ?thesis using a r1 wrong nz le1 unfolding eq by (simp add: Let_def)
      qed
    next
      case ok: False
      obtain r2 w2 where b: "retry n q v w1 = (r2, w2)" by (cases "retry n q v w1")
      have le2: "length (stdin w2) \<le> length (stdin w1)" using retry_stdin_le [OF b] .
      show ?thesis
      proof (cases r2)
        case (Inl e)
        then show ?thesis using a r1 ok b le1 le2 unfolding eq by simp
      next
        case r2: (Inr v')
        have "length (stdin (snd (for_loop questions rest lives (n + 1) w2))) \<le> length (stdin w2)"
          using "2.hyps"(5) [OF a [symmetric] r1 ok b [symmetric] r2] .
        then show ?thesis using a r1 ok b r2 le1 le2 unfolding eq by simp
      qed
    qed
  qed
qed

termination for_loop
proof (relation "measure (\<lambda>(questions, qs, lives, n, w). length (stdin w))", goal_cases)
  case 1
  show ?case by simp
next
  case (2 questions q rest lives n w x y b xa xb xc xd ya ba)
  then show ?case
    using ask_consumes [of n q w b y] ask_again_stdin_le [of xc xd ya] by simp
next
  case (3 questions q rest lives n w x y b xa xb xc xd ya ba xe yb)
  then have "for_loop questions (total_questions questions) LIVES 1 ya = (xe, yb)"
    by simp
  with 3 show ?case
    using ask_consumes [of n q w b y] ask_again_stdin_le [of xc xd ya]
      for_loop_stdin_le_dom [of questions "total_questions questions" LIVES 1 ya]
    by simp
next
  case (4 questions q rest lives n w x y b xa xb xc)
  then show ?case using ask_consumes [of n q w b y] by simp
next
  case (5 questions q rest lives n w x y b xa ya ba)
  then show ?case
    using ask_consumes [of n q w b y] retry_stdin_le [of n q b y xa ya] by simp
qed

text \<open>
  \<open>game\<close> categorises the questions and runs the loop over their concatenation. The
  call \<open>game()\<close> inside the loop is the same body on the default number of lives, in
  the world the caller has reached: \<open>for_loop questions (total_questions questions) LIVES 1\<close>.
  The script's entry point calls \<open>game(LIVES)\<close> with nothing printed yet.
\<close>

definition game :: "quiz_item list \<Rightarrow> int \<Rightarrow> world \<Rightarrow> status \<times> world" where
  "game questions lives w = for_loop questions (total_questions questions) lives 1 w"

definition main :: "quiz_item list \<Rightarrow> string list \<Rightarrow> status \<times> world" where
  "main questions lines = game questions LIVES \<lparr>stdin = lines, trace = []\<rparr>"

subsection \<open>The paths through one iteration\<close>

text \<open>
  Every property of the loop below is proved along the nine ways an iteration can go:
  the list is exhausted; the first answer cannot be read or converted; a wrong answer with
  lives left; the last life lost and the restart prompt fails, is answered \<open>n\<close>, is
  answered \<open>y\<close> with the restarted game raising or returning; an answer that is right
  or invalid, with the re-prompt loop raising or ending.
\<close>

lemma for_loop_steps [case_names Nil AskRaises Continue LostRaises LostNo RestartRaises
    RestartReturns RetryRaises Next]:
  assumes nil: "\<And>questions lives n w. P questions [] lives n w (Returned, w)"
    and ask_raises: "\<And>questions q rest lives n w e w1.
      ask n q w = (Inl e, w1) \<Longrightarrow> P questions (q # rest) lives n w (Raised e, w1)"
    and continue: "\<And>questions q rest lives n w w1 r.
      ask n q w = (Inr PyFalse, w1) \<Longrightarrow> lives - 1 \<noteq> 0 \<Longrightarrow>
      for_loop questions rest (lives - 1) (n + 1)
        (emit [PrintLivesLeft (lives - 1)] (emit [AssignLives (lives - 1)] w1)) = r \<Longrightarrow>
      P questions rest (lives - 1) (n + 1)
        (emit [PrintLivesLeft (lives - 1)] (emit [AssignLives (lives - 1)] w1)) r \<Longrightarrow>
      P questions (q # rest) lives n w r"
    and lost_raises: "\<And>questions q rest lives n w w1 e w3.
      ask n q w = (Inr PyFalse, w1) \<Longrightarrow> lives = 1 \<Longrightarrow>
      ask_again (emit [AssignLives 0] w1) = (Inl e, w3) \<Longrightarrow>
      P questions (q # rest) lives n w (Raised e, w3)"
    and lost_no: "\<And>questions q rest lives n w w1 again w3.
      ask n q w = (Inr PyFalse, w1) \<Longrightarrow> lives = 1 \<Longrightarrow>
      ask_again (emit [AssignLives 0] w1) = (Inr again, w3) \<Longrightarrow> again \<noteq> ''y'' \<Longrightarrow>
      P questions (q # rest) lives n w (Returned, emit [PrintThanks] w3)"
    and restart_raises: "\<And>questions q rest lives n w w1 w3 e w4.
      ask n q w = (Inr PyFalse, w1) \<Longrightarrow> lives = 1 \<Longrightarrow>
      ask_again (emit [AssignLives 0] w1) = (Inr ''y'', w3) \<Longrightarrow>
      for_loop questions (total_questions questions) LIVES 1 w3 = (Raised e, w4) \<Longrightarrow>
      P questions (total_questions questions) LIVES 1 w3 (Raised e, w4) \<Longrightarrow>
      P questions (q # rest) lives n w (Raised e, w4)"
    and restart_returns: "\<And>questions q rest lives n w w1 w3 w4 r.
      ask n q w = (Inr PyFalse, w1) \<Longrightarrow> lives = 1 \<Longrightarrow>
      ask_again (emit [AssignLives 0] w1) = (Inr ''y'', w3) \<Longrightarrow>
      for_loop questions (total_questions questions) LIVES 1 w3 = (Returned, w4) \<Longrightarrow>
      P questions (total_questions questions) LIVES 1 w3 (Returned, w4) \<Longrightarrow>
      for_loop questions rest 0 (n + 2) w4 = r \<Longrightarrow>
      P questions rest 0 (n + 2) w4 r \<Longrightarrow>
      P questions (q # rest) lives n w r"
    and retry_raises: "\<And>questions q rest lives n w v w1 e w2.
      ask n q w = (Inr v, w1) \<Longrightarrow> v \<noteq> PyFalse \<Longrightarrow>
      retry n q v w1 = (Inl e, w2) \<Longrightarrow>
      P questions (q # rest) lives n w (Raised e, w2)"
    and advance: "\<And>questions q rest lives n w v w1 v' w2 r.
      ask n q w = (Inr v, w1) \<Longrightarrow> v \<noteq> PyFalse \<Longrightarrow>
      retry n q v w1 = (Inr v', w2) \<Longrightarrow>
      for_loop questions rest lives (n + 1) w2 = r \<Longrightarrow>
      P questions rest lives (n + 1) w2 r \<Longrightarrow>
      P questions (q # rest) lives n w r"
  shows "P questions qs lives n w (for_loop questions qs lives n w)"
proof (induction questions qs lives n w rule: for_loop.induct)
  case (1 questions lives n w)
  show ?case by (simp add: nil)
next
  case (2 questions q rest lives n w)
  obtain r1 w1 where a: "ask n q w = (r1, w1)" by (cases "ask n q w")
  show ?case
  proof (cases r1)
    case (Inl e)
    with a ask_raises [where rest = rest and lives = lives and questions = questions, of n q w e w1] show ?thesis by simp
  next
    case r1: (Inr v)
    show ?thesis
    proof (cases "v = PyFalse")
      case wrong: True
      note a' = a [unfolded r1 wrong]
      let ?w2 = "emit [AssignLives (lives - 1)] w1"
      show ?thesis
      proof (cases "lives - 1 = 0")
        case zero: True
        then have l1: "lives = 1" by simp
        obtain r3 w3 where b: "ask_again ?w2 = (r3, w3)" by (cases "ask_again ?w2")
        note b' = b [unfolded zero]
        show ?thesis
        proof (cases r3)
          case (Inl e)
          with a' zero b lost_raises [where rest = rest and questions = questions, OF a' l1 b' [unfolded Inl]]
          show ?thesis by (simp add: Let_def)
        next
          case r3: (Inr again)
          show ?thesis
          proof (cases "again = ''y''")
            case yes: True
            note b'' = b' [unfolded r3 yes]
            obtain st w4 where
              c: "for_loop questions (total_questions questions) LIVES 1 w3 = (st, w4)"
              by (cases "for_loop questions (total_questions questions) LIVES 1 w3")
            have p1: "P questions (total_questions questions) LIVES 1 w3 (st, w4)"
              using "2.IH"(1) [OF a [symmetric] r1 wrong refl refl refl zero b [symmetric] r3 yes] c
              by simp
            show ?thesis
            proof (cases st)
              case Returned
              have p2: "P questions rest 0 (n + 2) w4 (for_loop questions rest 0 (n + 2) w4)"
                using "2.IH"(2) [OF a [symmetric] r1 wrong refl refl refl zero b [symmetric] r3 yes
                    c [symmetric] Returned] zero
                by (simp add: add.assoc)
              from restart_returns [OF a' l1 b'' c [unfolded Returned] p1 [unfolded Returned]
                  refl p2]
              show ?thesis using a' zero b r3 yes c Returned by (simp add: Let_def add.assoc)
            next
              case (Raised e)
              from restart_raises [where rest = rest, OF a' l1 b'' c [unfolded Raised] p1 [unfolded Raised]]
              show ?thesis using a' zero b r3 yes c Raised by (simp add: Let_def)
            qed
          next
            case no: False
            from lost_no [where rest = rest and questions = questions, OF a' l1 b' [unfolded r3] no]
            show ?thesis using a' zero b r3 no by (simp add: Let_def)
          qed
        qed
      next
        case nz: False
        have "P questions rest (lives - 1) (n + 1) (emit [PrintLivesLeft (lives - 1)] ?w2)
                (for_loop questions rest (lives - 1) (n + 1) (emit [PrintLivesLeft (lives - 1)] ?w2))"
          using "2.IH"(3) [OF a [symmetric] r1 wrong refl refl refl nz] .
        from continue [OF a' nz refl this]
        show ?thesis using a' nz by (simp add: Let_def)
      qed
    next
      case ok: False
      note a' = a [unfolded r1]
      obtain r2 w2 where b: "retry n q v w1 = (r2, w2)" by (cases "retry n q v w1")
      show ?thesis
      proof (cases r2)
        case (Inl e)
        from retry_raises [where rest = rest and lives = lives and questions = questions, OF a' ok b [unfolded Inl]]
        show ?thesis using a' ok b Inl by simp
      next
        case r2: (Inr v')
        have "P questions rest lives (n + 1) w2 (for_loop questions rest lives (n + 1) w2)"
          using "2.IH"(4) [OF a [symmetric] r1 ok b [symmetric] r2] .
        from advance [OF a' ok b [unfolded r2] refl this]
        show ?thesis using a' ok b r2 by simp
      qed
    qed
  qed
qed

subsection \<open>Reading a run\<close>

text \<open>
  The definitions of this subsection are not taken from the program: they name what the
  claims speak about. \<open>chosen_option q line\<close> is the option text a line selects when,
  lowercased as \<open>take_answer\<close> returns it, it is a positive integer within
  \<open>[1, number of options]\<close>; the choice is right or wrong as that text matches the answer
  of the question without regard to case. \<open>presented\<close> lists what \<open>print_question\<close>
  showed, \<open>numbered n qs\<close> is what showing \<open>qs\<close> once each in order shows when the
  numbers start at \<open>n\<close>, \<open>restart_prompt_follows\<close> holds of a trace in which every
  assignment of 0 to \<open>lives\<close> is followed at once by the prompt of line 74, and a
  question is \<open>recognised\<close> when its difficulty is one of the three that
  \<open>categorize_questions\<close> selects.
\<close>

fun restart_prompt_follows :: "event list \<Rightarrow> bool" where
  "restart_prompt_follows [] = True"
| "restart_prompt_follows (AssignLives l # es) =
     (if l = 0
      then (case es of InputLost # _ \<Rightarrow> restart_prompt_follows es | _ \<Rightarrow> False)
      else restart_prompt_follows es)"
| "restart_prompt_follows (e # es) = restart_prompt_follows es"

definition chosen_option :: "quiz_item \<Rightarrow> string \<Rightarrow> string option" where
  "chosen_option q line =
     (case py_int (lower line) of
        Inl e \<Rightarrow> None
      | Inr n \<Rightarrow>
          if 1 \<le> n \<and> n \<le> int (length (options q))
          then Some (options q ! nat (n - 1)) else None)"

definition right_choice :: "quiz_item \<Rightarrow> string \<Rightarrow> bool" where
  "right_choice q line =
     (case chosen_option q line of None \<Rightarrow> False | Some t \<Rightarrow> lower t = lower (answer q))"

definition wrong_choice :: "quiz_item \<Rightarrow> string \<Rightarrow> bool" where
  "wrong_choice q line =
     (case chosen_option q line of None \<Rightarrow> False | Some t \<Rightarrow> lower t \<noteq> lower (answer q))"

fun presented :: "event list \<Rightarrow> (int \<times> string \<times> string list) list" where
  "presented [] = []"
| "presented (PrintQuestion idx text opts # es) = (idx, text, opts) # presented es"
| "presented (e # es) = presented es"

fun numbered :: "int \<Rightarrow> quiz_item list \<Rightarrow> (int \<times> string \<times> string list) list" where
  "numbered n [] = []"
| "numbered n (q # qs) = (n, lower (question q), options q) # numbered (n + 1) qs"

definition recognised :: "quiz_item \<Rightarrow> bool" where
  "recognised q =
     (lower (difficulty q) = ''easy'' \<or> lower (difficulty q) = ''medium'' \<or>
      lower (difficulty q) = ''hard'')"


subsection \<open>Two questions to run the game on\<close>

definition capital_question :: quiz_item where
  "capital_question =
     \<lparr>question = ''Capital of France?'', options = [''Paris'', ''London'', ''Berlin''],
      answer = ''Paris'', difficulty = ''easy''\<rparr>"

definition two_option_question :: quiz_item where
  "two_option_question =
     \<lparr>question = ''Capital of France?'', options = [''Paris'', ''London''],
      answer = ''Paris'', difficulty = ''easy''\<rparr>"

subsection \<open>What one question does to the world\<close>

lemma lower_char_idem: "lower_char (lower_char c) = lower_char c"
proof -
  have "of_char c < (256::nat)" by simp
  then show ?thesis
    by (auto simp: lower_char_def Let_def)
qed

lemma lower_idem: "lower (lower s) = lower s"
  by (simp add: lower_def lower_char_idem)

lemma trace_emit [simp]: "trace (emit es w) = trace w @ es"
  by (simp add: emit_def)

lemma ask_line:
  "stdin w = line # lines \<Longrightarrow>
   ask n q w =
     check_answer (lower line) (lower (answer q)) (options q)
       (emit [PrintQuestion n (lower (question q)) (options q), InputAnswer]
          (w\<lparr>stdin := lines\<rparr>))"
  by (simp add: ask_def take_answer_def py_input_def print_question_def emit_def Let_def)

lemma ask_wrong:
  assumes "wrong_choice q line" and "stdin w = line # lines"
  shows "ask n q w =
     (Inr PyFalse,
      emit [PrintQuestion n (lower (question q)) (options q), InputAnswer,
            PrintWrong (lower (answer q)), Sleep] (w\<lparr>stdin := lines\<rparr>))"
proof -
  from assms(1) obtain k where k: "py_int (lower line) = Inr k" "1 \<le> k"
      "k \<le> int (length (options q))" "lower (options q ! nat (k - 1)) \<noteq> lower (answer q)"
    by (auto simp: wrong_choice_def chosen_option_def split: sum.splits if_splits)
  have "isdigit (lower line)" using k(1) by (rule py_int_isdigit)
  with k show ?thesis
    unfolding ask_line [OF assms(2)]
    by (simp add: check_answer_def lower_idem emit_def Let_def)
qed

lemma ask_right:
  assumes "right_choice q line" and "stdin w = line # lines"
  shows "ask n q w =
     (Inr PyTrue,
      emit [PrintQuestion n (lower (question q)) (options q), InputAnswer,
            PrintCorrect, Sleep] (w\<lparr>stdin := lines\<rparr>))"
proof -
  from assms(1) obtain k where k: "py_int (lower line) = Inr k" "1 \<le> k"
      "k \<le> int (length (options q))" "lower (options q ! nat (k - 1)) = lower (answer q)"
    by (auto simp: right_choice_def chosen_option_def split: sum.splits if_splits)
  have "isdigit (lower line)" using k(1) by (rule py_int_isdigit)
  with k show ?thesis
    unfolding ask_line [OF assms(2)]
    by (simp add: check_answer_def lower_idem emit_def Let_def)
qed

lemma ask_trace:
  "ask n q w = (r, w1) \<Longrightarrow> \<exists>es. trace w1 = trace w @ es \<and> (\<forall>l. AssignLives l \<notin> set es)"
  by (auto simp: ask_def take_answer_def py_input_def print_question_def check_answer_def
      emit_def Let_def split: list.splits sum.splits if_splits)

lemma retry_trace:
  "retry n q v w = (r, w') \<Longrightarrow> \<exists>es. trace w' = trace w @ es \<and> (\<forall>l. AssignLives l \<notin> set es)"
proof (induction n q v w rule: retry.induct)
  case (1 n q v w)
  show ?case
  proof (cases "v = InvalidInput")
    case False
    with "1.prems" show ?thesis by (simp add: retry_valid)
  next
    case True
    obtain r1 w1 where a: "ask n q w = (r1, w1)" by (cases "ask n q w")
    from ask_trace [OF a] obtain es where es: "trace w1 = trace w @ es"
        "\<forall>l. AssignLives l \<notin> set es" by blast
    show ?thesis
    proof (cases r1)
      case (Inl e)
      with True a "1.prems" es show ?thesis by (auto simp: retry_invalid)
    next
      case (Inr v1)
      with True a "1.prems" have "retry n q v1 w1 = (r, w')" by (simp add: retry_invalid)
      from "1.IH" [OF True a [symmetric] Inr this]
      obtain es' where "trace w' = trace w1 @ es'" "\<forall>l. AssignLives l \<notin> set es'" by blast
      with es have "trace w' = trace w @ (es @ es') \<and> (\<forall>l. AssignLives l \<notin> set (es @ es'))"
        by simp
      then show ?thesis by blast
    qed
  qed
qed

lemma again_loop_trace:
  "again_loop a w = (r, w') \<Longrightarrow>
   \<exists>es. trace w' = trace w @ es \<and> (\<forall>l. AssignLives l \<notin> set es)"
proof (induction a w rule: again_loop.induct)
  case (1 a w)
  show ?case
  proof (cases "a \<noteq> ''y'' \<and> a \<noteq> ''n''")
    case False
    with "1.prems" show ?thesis by (auto simp: again_loop_yn)
  next
    case True
    show ?thesis
    proof (cases "stdin w")
      case Nil
      with True "1.prems" show ?thesis by (auto simp: py_input_def again_loop_other emit_def)
    next
      case (Cons l rest)
      let ?w1 = "emit [InputAgain] (emit [PrintInvalidInput, Sleep] w\<lparr>stdin := rest\<rparr>)"
      have p: "py_input InputAgain (emit [PrintInvalidInput, Sleep] w) = (Inr l, ?w1)"
        using Cons by (simp add: py_input_def)
      with True "1.prems" have "again_loop (lower l) ?w1 = (r, w')"
        by (simp add: again_loop_other)
      from "1.IH" [OF True p [symmetric] refl this]
      obtain es' where "trace w' = trace ?w1 @ es'" "\<forall>l. AssignLives l \<notin> set es'" by blast
      then have "trace w' = trace w @ ([PrintInvalidInput, Sleep, InputAgain] @ es') \<and>
          (\<forall>l. AssignLives l \<notin> set ([PrintInvalidInput, Sleep, InputAgain] @ es'))"
        by (simp add: emit_def)
      then show ?thesis by blast
    qed
  qed
qed

lemma ask_again_trace:
  assumes "ask_again w = (r, w')"
  shows "\<exists>es. trace w' = trace w @ InputLost # es \<and> (\<forall>l. AssignLives l \<notin> set es)"
proof (cases "stdin w")
  case Nil
  with assms show ?thesis by (auto simp: ask_again_def py_input_def emit_def)
next
  case (Cons l rest)
  with assms have "again_loop (lower l) (emit [InputLost] (w\<lparr>stdin := rest\<rparr>)) = (r, w')"
    by (simp add: ask_again_def py_input_def)
  from again_loop_trace [OF this] show ?thesis by (auto simp: emit_def)
qed

lemma restart_prompt_follows_append:
  "restart_prompt_follows xs \<Longrightarrow>
   restart_prompt_follows (xs @ ys) = restart_prompt_follows ys"
  by (induction xs rule: restart_prompt_follows.induct) (auto split: if_splits list.splits event.splits)

lemma restart_prompt_follows_quiet:
  "\<forall>l. AssignLives l \<notin> set es \<Longrightarrow> restart_prompt_follows es"
  by (induction es rule: restart_prompt_follows.induct) auto

lemma restart_prompt_follows_ask:
  "ask n q w = (r, w1) \<Longrightarrow> restart_prompt_follows (trace w) \<Longrightarrow>
   restart_prompt_follows (trace w1)"
  using ask_trace [of n q w r w1]
  by (auto simp: restart_prompt_follows_append restart_prompt_follows_quiet)

lemma restart_prompt_follows_retry:
  "retry n q v w = (r, w1) \<Longrightarrow> restart_prompt_follows (trace w) \<Longrightarrow>
   restart_prompt_follows (trace w1)"
  using retry_trace [of n q v w r w1]
  by (auto simp: restart_prompt_follows_append restart_prompt_follows_quiet)

lemma restart_prompt_follows_lost:
  "ask_again (emit [AssignLives 0] w) = (r, w1) \<Longrightarrow> restart_prompt_follows (trace w) \<Longrightarrow>
   restart_prompt_follows (trace w1)"
  using ask_again_trace [of "emit [AssignLives 0] w" r w1]
  by (auto simp: restart_prompt_follows_append restart_prompt_follows_quiet)

lemma restart_prompt_follows_lives_left:
  "l \<noteq> 0 \<Longrightarrow> restart_prompt_follows (trace w) \<Longrightarrow>
   restart_prompt_follows (trace (emit [PrintLivesLeft l] (emit [AssignLives l] w)))"
  by (simp add: restart_prompt_follows_append)

lemma for_loop_restart_prompt_follows:
  "restart_prompt_follows (trace w) \<longrightarrow>
   restart_prompt_follows (trace (snd (for_loop questions qs lives n w)))"
proof (rule for_loop_steps [where P = "\<lambda>questions qs lives n w r.
    restart_prompt_follows (trace w) \<longrightarrow> restart_prompt_follows (trace (snd r))"], goal_cases)
  case (1 questions lives n w)
  show ?case by simp
next
  case (2 questions q rest lives n w e w1)
  then show ?case by (auto dest: restart_prompt_follows_ask)
next
  case (3 questions q rest lives n w w1 r)
  then show ?case
    using restart_prompt_follows_lives_left [OF 3(2) restart_prompt_follows_ask [OF 3(1)]]
    by simp
next
  case (4 questions q rest lives n w w1 e w3)
  then show ?case
    by (auto dest!: restart_prompt_follows_ask restart_prompt_follows_lost)
next
  case (5 questions q rest lives n w w1 again w3)
  then show ?case
    using restart_prompt_follows_ask [OF 5(1)] restart_prompt_follows_lost [OF 5(3)]
    by (simp add: restart_prompt_follows_append)
next
  case (6 questions q rest lives n w w1 w3 e w4)
  then show ?case
    using restart_prompt_follows_ask [OF 6(1)] restart_prompt_follows_lost [OF 6(3)] by simp
next
  case (7 questions q rest lives n w w1 w3 w4 r)
  then show ?case
    using restart_prompt_follows_ask [OF 7(1)] restart_prompt_follows_lost [OF 7(3)] by simp
next
  case (8 questions q rest lives n w v w1 e w2)
  then show ?case
    using restart_prompt_follows_ask [OF 8(1)] restart_prompt_follows_retry [OF 8(3)] by simp
next
  case (9 questions q rest lives n w v w1 v' w2 r)
  then show ?case
    using restart_prompt_follows_ask [OF 9(1)] restart_prompt_follows_retry [OF 9(3)] by simp
qed

lemma presented_append: "presented (xs @ ys) = presented xs @ presented ys"
  by (induction xs rule: presented.induct) auto

lemma for_loop_wrong_continue:
  "ask n q w = (Inr PyFalse, w1) \<Longrightarrow> lives \<noteq> 1 \<Longrightarrow>
   for_loop questions (q # rest) lives n w =
     for_loop questions rest (lives - 1) (n + 1)
       (emit [PrintLivesLeft (lives - 1)] (emit [AssignLives (lives - 1)] w1))"
  by (simp add: Let_def)

lemma for_loop_right:
  "ask n q w = (Inr PyTrue, w1) \<Longrightarrow>
   for_loop questions (q # rest) lives n w = for_loop questions rest lives (n + 1) w1"
  by (simp add: retry_valid)

lemma for_loop_trace_extends:
  "\<exists>es. trace (snd (for_loop questions qs lives n w)) = trace w @ es"
proof (rule for_loop_steps [where P = "\<lambda>questions qs lives n w r.
    \<exists>es. trace (snd r) = trace w @ es"], goal_cases)
  case (1 questions lives n w)
  show ?case by simp
next
  case (2 questions q rest lives n w e w1)
  then show ?case using ask_trace [OF 2(1)] by auto
next
  case (3 questions q rest lives n w w1 r)
  then show ?case using ask_trace [OF 3(1)] by auto
next
  case (4 questions q rest lives n w w1 e w3)
  then show ?case using ask_trace [OF 4(1)] ask_again_trace [OF 4(3)] by auto
next
  case (5 questions q rest lives n w w1 again w3)
  then show ?case using ask_trace [OF 5(1)] ask_again_trace [OF 5(3)] by auto
next
  case (6 questions q rest lives n w w1 w3 e w4)
  then show ?case using ask_trace [OF 6(1)] ask_again_trace [OF 6(3)] by auto
next
  case (7 questions q rest lives n w w1 w3 w4 r)
  then show ?case using ask_trace [OF 7(1)] ask_again_trace [OF 7(3)] by auto
next
  case (8 questions q rest lives n w v w1 e w2)
  then show ?case using ask_trace [OF 8(1)] retry_trace [OF 8(3)] by auto
next
  case (9 questions q rest lives n w v w1 v' w2 r)
  then show ?case using ask_trace [OF 9(1)] retry_trace [OF 9(3)] by auto
qed

lemma for_loop_last_life:
  assumes a: "ask n q w = (Inr PyFalse, w1)" and l: "lives = 1"
  shows "\<exists>es. trace (snd (for_loop questions (q # rest) lives n w)) =
              trace w1 @ AssignLives 0 # InputLost # es"
proof -
  obtain r3 w3 where b: "ask_again (emit [AssignLives 0] w1) = (r3, w3)"
    by (cases "ask_again (emit [AssignLives 0] w1)")
  from ask_again_trace [OF b] obtain es3 where
    t3: "trace w3 = trace w1 @ AssignLives 0 # InputLost # es3" by auto
  show ?thesis
  proof (cases r3)
    case (Inl e)
    with a l b t3 show ?thesis by (simp add: Let_def)
  next
    case r3: (Inr again)
    show ?thesis
    proof (cases "again = ''y''")
      case False
      with a l b r3 t3 show ?thesis by (simp add: Let_def)
    next
      case True
      obtain st w4 where
        c: "for_loop questions (total_questions questions) LIVES 1 w3 = (st, w4)"
        by (cases "for_loop questions (total_questions questions) LIVES 1 w3")
      from for_loop_trace_extends [of questions "total_questions questions" LIVES 1 w3] c
      obtain es4 where t4: "trace w4 = trace w3 @ es4" by auto
      show ?thesis
      proof (cases st)
        case (Raised e)
        with a l b r3 True c t3 t4 show ?thesis by (simp add: Let_def)
      next
        case Returned
        from for_loop_trace_extends [of questions rest 0 "n + 1 + 1" w4]
        obtain es5 where "trace (snd (for_loop questions rest 0 (n + 1 + 1) w4)) = trace w4 @ es5"
          by auto
        with a l b r3 True c Returned t3 t4 show ?thesis by (simp add: Let_def)
      qed
    qed
  qed
qed

lemma three_wrong_answers:
  assumes t: "total_questions questions = q1 # q2 # q3 # rest"
    and w1: "wrong_choice q1 a1" and w2: "wrong_choice q2 a2" and w3: "wrong_choice q3 a3"
  shows "\<exists>es. trace (snd (main questions (a1 # a2 # a3 # lines))) =
     [PrintQuestion 1 (lower (question q1)) (options q1), InputAnswer,
      PrintWrong (lower (answer q1)), Sleep, AssignLives 2, PrintLivesLeft 2,
      PrintQuestion 2 (lower (question q2)) (options q2), InputAnswer,
      PrintWrong (lower (answer q2)), Sleep, AssignLives 1, PrintLivesLeft 1,
      PrintQuestion 3 (lower (question q3)) (options q3), InputAnswer,
      PrintWrong (lower (answer q3)), Sleep, AssignLives 0, InputLost] @ es"
proof -
  let ?w0 = "\<lparr>stdin = a1 # a2 # a3 # lines, trace = []\<rparr>"
  let ?e1 = "[PrintQuestion 1 (lower (question q1)) (options q1), InputAnswer,
      PrintWrong (lower (answer q1)), Sleep]"
  let ?e2 = "[PrintQuestion 2 (lower (question q2)) (options q2), InputAnswer,
      PrintWrong (lower (answer q2)), Sleep]"
  let ?e3 = "[PrintQuestion 3 (lower (question q3)) (options q3), InputAnswer,
      PrintWrong (lower (answer q3)), Sleep]"
  let ?w1 = "emit ?e1 (?w0\<lparr>stdin := a2 # a3 # lines\<rparr>)"
  let ?w1' = "emit [PrintLivesLeft 2] (emit [AssignLives 2] ?w1)"
  let ?w2 = "emit ?e2 (?w1'\<lparr>stdin := a3 # lines\<rparr>)"
  let ?w2' = "emit [PrintLivesLeft 1] (emit [AssignLives 1] ?w2)"
  let ?w3 = "emit ?e3 (?w2'\<lparr>stdin := lines\<rparr>)"
  have s1: "ask 1 q1 ?w0 = (Inr PyFalse, ?w1)" by (rule ask_wrong [OF w1]) simp
  have s2: "ask 2 q2 ?w1' = (Inr PyFalse, ?w2)"
    by (rule ask_wrong [OF w2]) (simp add: emit_def)
  have s3: "ask 3 q3 ?w2' = (Inr PyFalse, ?w3)"
    by (rule ask_wrong [OF w3]) (simp add: emit_def)
  have "main questions (a1 # a2 # a3 # lines) =
          for_loop questions (q1 # q2 # q3 # rest) 3 1 ?w0"
    by (simp add: main_def game_def t LIVES_def)
  also have "\<dots> = for_loop questions (q2 # q3 # rest) 2 2 ?w1'"
    using for_loop_wrong_continue [OF s1, of 3 questions "q2 # q3 # rest"] by simp
  also have "\<dots> = for_loop questions (q3 # rest) 1 3 ?w2'"
    using for_loop_wrong_continue [OF s2, of 2 questions "q3 # rest"] by simp
  finally have m: "main questions (a1 # a2 # a3 # lines) =
      for_loop questions (q3 # rest) 1 3 ?w2'" .
  from for_loop_last_life [OF s3 refl, of questions rest] obtain es where
    "trace (snd (for_loop questions (q3 # rest) 1 3 ?w2')) =
       trace ?w3 @ AssignLives 0 # InputLost # es" by blast
  with m show ?thesis by (simp add: emit_def)
qed

subsection \<open>Claims about grading and lives\<close>

text \<open>
  Claim C2 says that a valid but wrong answer always costs one life, also when it is given
  after invalid input for the same question. The program decrements \<open>lives\<close> only in the
  branch \<open>if not is_correct\<close> that follows the first answer; the answers read by the
  re-prompt loop of lines 89 to 93 are graded by \<open>check_answer\<close> and then only end the
  loop. In the run below the first question is answered \<open>5\<close> (invalid) and then \<open>2\<close>
  (London, wrong): the correct answer is announced and the second question follows, but no
  assignment to \<open>lives\<close> happens. The second question is answered \<open>2\<close> at once, and the
  program reports 2 lives left after two wrong answers.
\<close>

theorem wrong_answer_after_reprompt_keeps_lives:
  "main [capital_question, capital_question] [''5'', ''2'', ''2''] =
     (Returned,
      \<lparr>stdin = [],
       trace =
         [PrintQuestion 1 ''capital of france?'' [''Paris'', ''London'', ''Berlin''],
          InputAnswer, PrintEnterValid, Sleep,
          PrintQuestion 1 ''capital of france?'' [''Paris'', ''London'', ''Berlin''],
          InputAnswer, PrintWrong ''paris'', Sleep,
          PrintQuestion 2 ''capital of france?'' [''Paris'', ''London'', ''Berlin''],
          InputAnswer, PrintWrong ''paris'', Sleep, AssignLives 2, PrintLivesLeft 2]\<rparr>)"
  by code_simp

text \<open>
  Claim C3 says that the lives counter is never negative, also after a restarted session
  returns. After the answer \<open>y\<close> the program calls \<open>game()\<close> and, when that call
  returns, goes on with the loop that had reached 0 lives: there is no \<open>break\<close> after
  the call, as there is after the answer \<open>n\<close>. In the run below three wrong answers
  bring the lives to 0, the restarted game is played through with four right answers, and
  the outer loop then presents its fourth question (under the number 5); a wrong answer
  there assigns \<open>-1\<close> to \<open>lives\<close> and prints that \<open>-1\<close> lives are left.
\<close>

theorem lives_negative_after_restart_returns:
  "main [capital_question, capital_question, capital_question, capital_question]
        [''2'', ''2'', ''2'', ''y'', ''1'', ''1'', ''1'', ''1'', ''2''] =
     (Returned,
      \<lparr>stdin = [],
       trace =
         [PrintQuestion 1 ''capital of france?'' [''Paris'', ''London'', ''Berlin''],
          InputAnswer, PrintWrong ''paris'', Sleep, AssignLives 2, PrintLivesLeft 2,
          PrintQuestion 2 ''capital of france?'' [''Paris'', ''London'', ''Berlin''],
          InputAnswer, PrintWrong ''paris'', Sleep, AssignLives 1, PrintLivesLeft 1,
          PrintQuestion 3 ''capital of france?'' [''Paris'', ''London'', ''Berlin''],
          InputAnswer, PrintWrong ''paris'', Sleep, AssignLives 0, InputLost,
          PrintQuestion 1 ''capital of france?'' [''Paris'', ''London'', ''Berlin''],
          InputAnswer, PrintCorrect, Sleep,
          PrintQuestion 2 ''capital of france?'' [''Paris'', ''London'', ''Berlin''],
          InputAnswer, PrintCorrect, Sleep,
          PrintQuestion 3 ''capital of france?'' [''Paris'', ''London'', ''Berlin''],
          InputAnswer, PrintCorrect, Sleep,
          PrintQuestion 4 ''capital of france?'' [''Paris'', ''London'', ''Berlin''],
          InputAnswer, PrintCorrect, Sleep,
          PrintQuestion 5 ''capital of france?'' [''Paris'', ''London'', ''Berlin''],
          InputAnswer, PrintWrong ''paris'', Sleep, AssignLives (- 1),
          PrintLivesLeft (- 1)]\<rparr>)"
  by code_simp

text \<open>
  Claim C4 says that every input that is not a positive integer within
  \<open>[1, number of options]\<close> is classified as invalid and the question asked again.
  \<open>check_answer\<close> guards \<open>int(user_answer)\<close> with \<open>user_answer.isdigit()\<close>, which
  also holds of the superscript digits; \<open>int\<close> accepts none of them. On the line that
  consists of the character U+00B3 (superscript three), for a question with two options,
  the program ends with an uncaught \<open>ValueError\<close> instead of asking again.
\<close>

theorem superscript_answer_raises:
  "main [two_option_question] [[CHR 0xB3]] =
     (Raised ValueError,
      \<lparr>stdin = [],
       trace = [PrintQuestion 1 ''capital of france?'' [''Paris'', ''London''], InputAnswer]\<rparr>)"
  by code_simp

text \<open>
  What the claim says does hold of every line that fails \<open>isdigit\<close> and of every decimal
  number outside the range: the verdict is \<open>InvalidInput\<close>, no life is taken, and the
  loop of lines 89 to 93 asks the same question under the same number again.
\<close>

lemma invalid_answer_asks_again:
  assumes "\<not> isdigit (lower line) \<or>
           (\<exists>k. py_int (lower line) = Inr k \<and> (k < 1 \<or> int (length (options q)) < k))"
    and "stdin w = line # lines"
  shows "ask n q w =
           (Inr InvalidInput,
            emit [PrintQuestion n (lower (question q)) (options q), InputAnswer,
                  PrintEnterValid, Sleep] (w\<lparr>stdin := lines\<rparr>))"
    and "for_loop questions (q # rest) lives n w =
           (case ask n q (emit [PrintQuestion n (lower (question q)) (options q), InputAnswer,
                                PrintEnterValid, Sleep] (w\<lparr>stdin := lines\<rparr>)) of
              (Inl e, w2) \<Rightarrow> (Raised e, w2)
            | (Inr v, w2) \<Rightarrow>
                (case retry n q v w2 of
                   (Inl e, w3) \<Rightarrow> (Raised e, w3)
                 | (Inr v', w3) \<Rightarrow> for_loop questions rest lives (n + 1) w3))"
proof -
  show a: "ask n q w =
           (Inr InvalidInput,
            emit [PrintQuestion n (lower (question q)) (options q), InputAnswer,
                  PrintEnterValid, Sleep] (w\<lparr>stdin := lines\<rparr>))"
    using assms(1) unfolding ask_line [OF assms(2)]
    by (auto simp: check_answer_def emit_def Let_def dest: py_int_isdigit)
  show "for_loop questions (q # rest) lives n w =
           (case ask n q (emit [PrintQuestion n (lower (question q)) (options q), InputAnswer,
                                PrintEnterValid, Sleep] (w\<lparr>stdin := lines\<rparr>)) of
              (Inl e, w2) \<Rightarrow> (Raised e, w2)
            | (Inr v, w2) \<Rightarrow>
                (case retry n q v w2 of
                   (Inl e, w3) \<Rightarrow> (Raised e, w3)
                 | (Inr v', w3) \<Rightarrow> for_loop questions rest lives (n + 1) w3))"
    by (simp add: a retry_invalid split: prod.splits sum.splits)
qed

text \<open>
  Claim C7. In every run, whatever the questions, the number of lives the game starts with
  and the lines typed, every assignment of 0 to \<open>lives\<close> is followed at once by the
  restart prompt, so no further question is presented before it. In particular, starting
  from 3 lives, three consecutive questions answered wrongly at their first prompt bring
  the lives to 0 and the prompt follows. (A wrong answer given after invalid input takes no
  life; the three answers here are first answers.)
\<close>

theorem zero_lives_triggers_restart_prompt:
  "restart_prompt_follows (trace (snd (game questions lives \<lparr>stdin = lines, trace = []\<rparr>))) \<and>
   (total_questions questions = q1 # q2 # q3 # rest \<and>
    wrong_choice q1 a1 \<and> wrong_choice q2 a2 \<and> wrong_choice q3 a3 \<longrightarrow>
    (\<exists>es. trace (snd (main questions (a1 # a2 # a3 # lines))) =
       [PrintQuestion 1 (lower (question q1)) (options q1), InputAnswer,
        PrintWrong (lower (answer q1)), Sleep, AssignLives 2, PrintLivesLeft 2,
        PrintQuestion 2 (lower (question q2)) (options q2), InputAnswer,
        PrintWrong (lower (answer q2)), Sleep, AssignLives 1, PrintLivesLeft 1,
        PrintQuestion 3 (lower (question q3)) (options q3), InputAnswer,
        PrintWrong (lower (answer q3)), Sleep, AssignLives 0, InputLost] @ es))"
proof (intro conjI impI)
  show "restart_prompt_follows (trace (snd (game questions lives \<lparr>stdin = lines, trace = []\<rparr>)))"
    using for_loop_restart_prompt_follows
      [of "\<lparr>stdin = lines, trace = []\<rparr>" questions "total_questions questions" lives 1]
    by (simp add: game_def)
next
  assume "total_questions questions = q1 # q2 # q3 # rest \<and>
    wrong_choice q1 a1 \<and> wrong_choice q2 a2 \<and> wrong_choice q3 a3"
  then show "\<exists>es. trace (snd (main questions (a1 # a2 # a3 # lines))) =
       [PrintQuestion 1 (lower (question q1)) (options q1), InputAnswer,
        PrintWrong (lower (answer q1)), Sleep, AssignLives 2, PrintLivesLeft 2,
        PrintQuestion 2 (lower (question q2)) (options q2), InputAnswer,
        PrintWrong (lower (answer q2)), Sleep, AssignLives 1, PrintLivesLeft 1,
        PrintQuestion 3 (lower (question q3)) (options q3), InputAnswer,
        PrintWrong (lower (answer q3)), Sleep, AssignLives 0, InputLost] @ es"
    using three_wrong_answers [of questions q1 q2 q3 rest a1 a2 a3 lines] by blast
qed

theorem zero_lives_triggers_restart_prompt_witness:
  "restart_prompt_follows
     (trace (snd (game [capital_question, capital_question, capital_question] 3
        \<lparr>stdin = [''n''], trace = []\<rparr>))) \<and>
   (\<exists>es. trace (snd (main [capital_question, capital_question, capital_question]
                      [''2'', ''3'', ''2'', ''n''])) =
       [PrintQuestion 1 ''capital of france?'' [''Paris'', ''London'', ''Berlin''], InputAnswer,
        PrintWrong ''paris'', Sleep, AssignLives 2, PrintLivesLeft 2,
        PrintQuestion 2 ''capital of france?'' [''Paris'', ''London'', ''Berlin''], InputAnswer,
        PrintWrong ''paris'', Sleep, AssignLives 1, PrintLivesLeft 1,
        PrintQuestion 3 ''capital of france?'' [''Paris'', ''London'', ''Berlin''], InputAnswer,
        PrintWrong ''paris'', Sleep, AssignLives 0, InputLost] @ es)"
proof -
  have "lower ''Capital of France?'' = ''capital of france?'' \<and> lower ''Paris'' = ''paris'' \<and>
    lower ''London'' = ''london'' \<and> lower ''Berlin'' = ''berlin'' \<and> lower ''easy'' = ''easy'' \<and>
    lower ''2'' = ''2'' \<and> lower ''3'' = ''3''"
    by code_simp
  then have l: "lower ''Capital of France?'' = ''capital of france?''" "lower ''Paris'' = ''paris''"
    "lower ''London'' = ''london''" "lower ''Berlin'' = ''berlin''" "lower ''easy'' = ''easy''"
    "lower ''2'' = ''2''" "lower ''3'' = ''3''"
    by simp_all
  have t: "total_questions [capital_question, capital_question, capital_question] =
      capital_question # capital_question # capital_question # []"
    by (simp add: total_questions_def categorize_questions_def capital_question_def l)
  have p: "py_int ''2'' = Inr 2" "py_int ''3'' = Inr 3"
    by (simp_all add: py_int_def isdecimal_char_def digit_value_def)
  have w: "wrong_choice capital_question ''2''" "wrong_choice capital_question ''3''"
    by (simp_all add: wrong_choice_def chosen_option_def capital_question_def l p)
  show ?thesis
    using zero_lives_triggers_restart_prompt
      [of "[capital_question, capital_question, capital_question]" 3 "[''n'']"
        capital_question capital_question capital_question "[]" "''2''" "''3''" "''2''"]
      t w
    by (simp add: capital_question_def l)
qed


subsection \<open>Claims about the order of the questions\<close>

lemma chosen_option_cases:
  "chosen_option q line \<noteq> None \<Longrightarrow> right_choice q line \<or> wrong_choice q line"
  by (auto simp: right_choice_def wrong_choice_def)

lemma right_not_wrong: "right_choice q line \<Longrightarrow> \<not> wrong_choice q line"
  by (auto simp: right_choice_def wrong_choice_def split: option.splits)

lemma for_loop_valid_session:
  assumes "list_all2 (\<lambda>q line. chosen_option q line \<noteq> None) qs lines"
    and "int (length (filter (\<lambda>(q, line). wrong_choice q line) (zip qs lines))) < lives"
    and "stdin w = lines"
  shows "\<exists>w'. for_loop questions qs lives n w = (Returned, w') \<and> stdin w' = [] \<and>
              presented (trace w') = presented (trace w) @ numbered n qs"
  using assms
proof (induction qs arbitrary: lines lives n w)
  case Nil
  then show ?case by simp
next
  case (Cons q qs)
  from Cons.prems(1) obtain line rest where lines: "lines = line # rest"
      and c: "chosen_option q line \<noteq> None"
      and r: "list_all2 (\<lambda>q line. chosen_option q line \<noteq> None) qs rest"
    by (auto simp: list_all2_Cons1)
  have st: "stdin w = line # rest" using Cons.prems(3) lines by simp
  from chosen_option_cases [OF c] show ?case
  proof
    assume right: "right_choice q line"
    let ?w1 = "emit [PrintQuestion n (lower (question q)) (options q), InputAnswer,
                     PrintCorrect, Sleep] (w\<lparr>stdin := rest\<rparr>)"
    have a: "ask n q w = (Inr PyTrue, ?w1)" by (rule ask_right [OF right st])
    have cnt: "int (length (filter (\<lambda>(q, line). wrong_choice q line) (zip qs rest))) < lives"
      using Cons.prems(2) lines right_not_wrong [OF right] by simp
    from Cons.IH [OF r cnt, of ?w1 "n + 1"] obtain w' where
      "for_loop questions qs lives (n + 1) ?w1 = (Returned, w')" "stdin w' = []"
      "presented (trace w') = presented (trace ?w1) @ numbered (n + 1) qs"
      by (auto simp: emit_def)
    then show ?thesis
      unfolding for_loop_right [OF a] by (simp add: presented_append)
  next
    assume wrong: "wrong_choice q line"
    let ?w1 = "emit [PrintQuestion n (lower (question q)) (options q), InputAnswer,
                     PrintWrong (lower (answer q)), Sleep] (w\<lparr>stdin := rest\<rparr>)"
    let ?w2 = "emit [PrintLivesLeft (lives - 1)] (emit [AssignLives (lives - 1)] ?w1)"
    have a: "ask n q w = (Inr PyFalse, ?w1)" by (rule ask_wrong [OF wrong st])
    have cnt: "int (length (filter (\<lambda>(q, line). wrong_choice q line) (zip qs rest))) < lives - 1"
      using Cons.prems(2) lines wrong by simp
    then have l: "lives \<noteq> 1" by auto
    from Cons.IH [OF r cnt, of ?w2 "n + 1"] obtain w' where
      "for_loop questions qs (lives - 1) (n + 1) ?w2 = (Returned, w')" "stdin w' = []"
      "presented (trace w') = presented (trace ?w2) @ numbered (n + 1) qs"
      by (auto simp: emit_def)
    then show ?thesis
      unfolding for_loop_wrong_continue [OF a l] by (simp add: presented_append)
  qed
qed

lemma total_questions_filter:
  "total_questions questions =
     filter (\<lambda>q. lower (difficulty q) = ''easy'') questions @
     filter (\<lambda>q. lower (difficulty q) = ''medium'') questions @
     filter (\<lambda>q. lower (difficulty q) = ''hard'') questions"
  by (simp add: total_questions_def categorize_questions_def)

lemma for_loop_depends_on_total:
  "\<forall>questions'. total_questions questions' = total_questions questions \<longrightarrow>
     for_loop questions' qs lives n w = for_loop questions qs lives n w"
proof (rule for_loop_steps [where P = "\<lambda>questions qs lives n w r.
    \<forall>questions'. total_questions questions' = total_questions questions \<longrightarrow>
       for_loop questions' qs lives n w = r"], goal_cases)
  case (1 questions lives n w)
  show ?case by simp
next
  case (2 questions q rest lives n w e w1)
  then show ?case by simp
next
  case (3 questions q rest lives n w w1 r)
  show ?case
  proof (intro allI impI)
    fix questions'
    assume t: "total_questions questions' = total_questions questions"
    have "for_loop questions' (q # rest) lives n w =
        for_loop questions' rest (lives - 1) (n + 1)
          (emit [PrintLivesLeft (lives - 1)] (emit [AssignLives (lives - 1)] w1))"
      using 3(1,2) by (simp add: Let_def)
    also have "\<dots> = r" using 3(4) t by blast
    finally show "for_loop questions' (q # rest) lives n w = r" .
  qed
next
  case (4 questions q rest lives n w w1 e w3)
  then show ?case by (simp add: Let_def)
next
  case (5 questions q rest lives n w w1 again w3)
  then show ?case by (simp add: Let_def)
next
  case (6 questions q rest lives n w w1 w3 e w4)
  show ?case
  proof (intro allI impI)
    fix questions'
    assume t: "total_questions questions' = total_questions questions"
    have i: "for_loop questions' (total_questions questions') LIVES 1 w3 = (Raised e, w4)"
      using 6(5) t by simp
    show "for_loop questions' (q # rest) lives n w = (Raised e, w4)"
      using 6(1,2,3) i by (simp add: Let_def)
  qed
next
  case (7 questions q rest lives n w w1 w3 w4 r)
  show ?case
  proof (intro allI impI)
    fix questions'
    assume t: "total_questions questions' = total_questions questions"
    have i: "for_loop questions' (total_questions questions') LIVES 1 w3 = (Returned, w4)"
      using 7(5) t by simp
    have j: "for_loop questions' rest 0 (n + 2) w4 = r" using 7(7) t by blast
    have "for_loop questions' (q # rest) lives n w = for_loop questions' rest 0 (n + 1 + 1) w4"
      using 7(1,2,3) i by (simp add: Let_def)
    with j show "for_loop questions' (q # rest) lives n w = r" by (simp add: add.assoc)
  qed
next
  case (8 questions q rest lives n w v w1 e w2)
  then show ?case by simp
next
  case (9 questions q rest lives n w v w1 v' w2 r)
  show ?case
  proof (intro allI impI)
    fix questions'
    assume t: "total_questions questions' = total_questions questions"
    have "for_loop questions' (q # rest) lives n w = for_loop questions' rest lives (n + 1) w2"
      using 9(1,2,3) by simp
    also have "\<dots> = r" using 9(5) t by blast
    finally show "for_loop questions' (q # rest) lives n w = r" .
  qed
qed

lemma total_questions_recognised:
  "total_questions (filter recognised questions) = total_questions questions"
proof -
  have "(\<lambda>q. recognised q \<and> lower (difficulty q) = d) = (\<lambda>q. lower (difficulty q) = d)"
    if "d = ''easy'' \<or> d = ''medium'' \<or> d = ''hard''" for d
    using that by (auto simp: recognised_def)
  then show ?thesis by (simp add: total_questions_filter)
qed

lemma set_total_questions:
  "set (total_questions questions) = {q \<in> set questions. recognised q}"
  by (auto simp: total_questions_filter recognised_def)

text \<open>
  Claim C5. For every loaded question list, the loop runs over the questions whose
  difficulty is \<open>easy\<close> without regard to case, then those whose difficulty is
  \<open>medium\<close>, then those whose difficulty is \<open>hard\<close>, each group in file order. In a
  session in which every question is answered once with a valid choice, right or wrong, and
  fewer answers are wrong than there are lives, the questions presented are exactly these,
  in this order, numbered from 1.
\<close>

theorem questions_presented_easy_medium_hard:
  assumes "list_all2 (\<lambda>q line. chosen_option q line \<noteq> None) (total_questions questions) lines"
    and "int (length (filter (\<lambda>(q, line). wrong_choice q line)
                 (zip (total_questions questions) lines))) < lives"
  shows "total_questions questions =
           filter (\<lambda>q. lower (difficulty q) = ''easy'') questions @
           filter (\<lambda>q. lower (difficulty q) = ''medium'') questions @
           filter (\<lambda>q. lower (difficulty q) = ''hard'') questions \<and>
         (\<exists>w'. game questions lives \<lparr>stdin = lines, trace = []\<rparr> = (Returned, w') \<and>
               presented (trace w') =
                 numbered 1
                   (filter (\<lambda>q. lower (difficulty q) = ''easy'') questions @
                    filter (\<lambda>q. lower (difficulty q) = ''medium'') questions @
                    filter (\<lambda>q. lower (difficulty q) = ''hard'') questions))"
proof
  show t: "total_questions questions =
           filter (\<lambda>q. lower (difficulty q) = ''easy'') questions @
           filter (\<lambda>q. lower (difficulty q) = ''medium'') questions @
           filter (\<lambda>q. lower (difficulty q) = ''hard'') questions"
    by (rule total_questions_filter)
  from for_loop_valid_session [OF assms, of "\<lparr>stdin = lines, trace = []\<rparr>" questions 1]
  obtain w' where "game questions lives \<lparr>stdin = lines, trace = []\<rparr> = (Returned, w')"
      "presented (trace w') = numbered 1 (total_questions questions)"
    by (auto simp: game_def)
  then show "\<exists>w'. game questions lives \<lparr>stdin = lines, trace = []\<rparr> = (Returned, w') \<and>
               presented (trace w') =
                 numbered 1
                   (filter (\<lambda>q. lower (difficulty q) = ''easy'') questions @
                    filter (\<lambda>q. lower (difficulty q) = ''medium'') questions @
                    filter (\<lambda>q. lower (difficulty q) = ''hard'') questions)"
    unfolding t [symmetric] by blast
qed

theorem questions_presented_easy_medium_hard_witness:
  "\<exists>w'. game [capital_question\<lparr>question := ''C'', difficulty := ''Hard''\<rparr>,
               capital_question\<lparr>question := ''B'', difficulty := ''medium''\<rparr>,
               capital_question\<lparr>question := ''A'', difficulty := ''EASY''\<rparr>] 3
          \<lparr>stdin = [''1'', ''2'', ''1''], trace = []\<rparr> = (Returned, w') \<and>
        presented (trace w') =
          [(1, ''a'', [''Paris'', ''London'', ''Berlin'']),
           (2, ''b'', [''Paris'', ''London'', ''Berlin'']),
           (3, ''c'', [''Paris'', ''London'', ''Berlin''])]"
proof -
  let ?qs = "[capital_question\<lparr>question := ''C'', difficulty := ''Hard''\<rparr>,
               capital_question\<lparr>question := ''B'', difficulty := ''medium''\<rparr>,
               capital_question\<lparr>question := ''A'', difficulty := ''EASY''\<rparr>]"
  have h1: "list_all2 (\<lambda>q line. chosen_option q line \<noteq> None) (total_questions ?qs)
              [''1'', ''2'', ''1'']"
    by code_simp
  have h2: "int (length (filter (\<lambda>(q, line). wrong_choice q line)
                 (zip (total_questions ?qs) [''1'', ''2'', ''1'']))) < 3"
    by code_simp
  have n: "numbered 1
             (filter (\<lambda>q. lower (difficulty q) = ''easy'') ?qs @
              filter (\<lambda>q. lower (difficulty q) = ''medium'') ?qs @
              filter (\<lambda>q. lower (difficulty q) = ''hard'') ?qs) =
           [(1, ''a'', [''Paris'', ''London'', ''Berlin'']),
            (2, ''b'', [''Paris'', ''London'', ''Berlin'']),
            (3, ''c'', [''Paris'', ''London'', ''Berlin''])]"
    by code_simp
  from questions_presented_easy_medium_hard [OF h1 h2] show ?thesis
    unfolding n by blast
qed

text \<open>
  Claim C10. A loaded question whose difficulty is none of \<open>easy\<close>, \<open>medium\<close> and
  \<open>hard\<close>, without regard to case, is in none of the three lists that
  \<open>categorize_questions\<close> returns, and no error is raised for it. The game on a file is,
  in every world and for every number of lives, the game on the file without such
  questions: the same questions are presented under the same numbers, the same lives are
  assigned, the same result is returned, restarts included.
\<close>

theorem unrecognised_difficulty_is_dropped:
  "(\<not> recognised q \<longrightarrow> q \<notin> set (total_questions questions)) \<and>
   game questions lives w = game (filter recognised questions) lives w"
proof
  show "\<not> recognised q \<longrightarrow> q \<notin> set (total_questions questions)"
    by (simp add: set_total_questions)
  have "total_questions (filter recognised questions) = total_questions questions"
    by (rule total_questions_recognised)
  then have "for_loop (filter recognised questions) (total_questions questions) lives 1 w =
      for_loop questions (total_questions questions) lives 1 w"
    using for_loop_depends_on_total [of questions "total_questions questions" lives 1 w]
    by blast
  then show "game questions lives w = game (filter recognised questions) lives w"
    by (simp add: game_def total_questions_recognised)
qed

theorem unrecognised_difficulty_is_dropped_witness:
  "capital_question\<lparr>difficulty := ''tricky''\<rparr> \<notin>
     set (total_questions [capital_question\<lparr>difficulty := ''tricky''\<rparr>, capital_question]) \<and>
   game [capital_question\<lparr>difficulty := ''tricky''\<rparr>, capital_question] 3
     \<lparr>stdin = [''2'', ''1''], trace = []\<rparr> =
   game [capital_question] 3 \<lparr>stdin = [''2'', ''1''], trace = []\<rparr>"
proof -
  have r: "\<not> recognised (capital_question\<lparr>difficulty := ''tricky''\<rparr>)"
    by code_simp
  have f: "filter recognised [capital_question\<lparr>difficulty := ''tricky''\<rparr>, capital_question] =
      [capital_question]"
    by code_simp
  from unrecognised_difficulty_is_dropped
    [of "capital_question\<lparr>difficulty := ''tricky''\<rparr>"
      "[capital_question\<lparr>difficulty := ''tricky''\<rparr>, capital_question]" 3
      "\<lparr>stdin = [''2'', ''1''], trace = []\<rparr>"] r
  show ?thesis unfolding f by blast
qed

end
